theory Spec2Isabelle
  imports Main
begin

section \<open>The escape fixer: \<^verbatim>\<open>fix_escapes.py\<close>\<close>

text \<open>
  The script reads one file into \<^verbatim>\<open>content\<close>, computes
  \<^verbatim>\<open>content1 = re.sub(pattern, replacement, content)\<close> and writes \<^verbatim>\<open>content1\<close> back:
  \<^verbatim>\<open>
  pattern = r'\\\(([a-zA-Z_][a-zA-Z0-9_.]*)\\\)'
  replacement = r'(\1)'
  content1 = re.sub(pattern, replacement, content)
  \<close>
  Text is modelled as \<open>string\<close>. The backslash has no literal inside a HOL string, so it
  is written by its code point. The classes of the pattern hold ASCII characters only, and
  the pattern is compiled without flags: a character of any other code behaves like every
  character outside the classes.
\<close>

abbreviation BS :: char where
  "BS \<equiv> CHR 0x5C"

subsection \<open>The pattern, as the regular-expression compiler reads it\<close>

text \<open>
  A character class is a list of ranges and single characters; a range compares code
  points, both ends included. The pattern is a sequence of operations: a literal character,
  one character of a class, a greedy repetition (zero or more) of a class, and the marks
  that record where group 1 starts (mark 0) and ends (mark 1).
\<close>

datatype charset = Range char char | Member char

fun in_charset :: "charset \<Rightarrow> char \<Rightarrow> bool" where
  "in_charset (Range lo hi) c = ((of_char lo :: nat) \<le> of_char c \<and> (of_char c :: nat) \<le> of_char hi)"
| "in_charset (Member m) c = (c = m)"

definition in_class :: "charset list \<Rightarrow> char \<Rightarrow> bool" where
  "in_class cls c = list_ex (\<lambda>r. in_charset r c) cls"

datatype rx_op = Literal char | In "charset list" | Max_repeat "charset list" | Mark nat

text \<open>\<^verbatim>\<open>[a-zA-Z_]\<close> and \<^verbatim>\<open>[a-zA-Z0-9_.]\<close>; inside a class the period is an ordinary character.\<close>

definition ident_start :: "charset list" where
  "ident_start = [Range CHR ''a'' CHR ''z'', Range CHR ''A'' CHR ''Z'', Member CHR ''_'']"

definition ident_char :: "charset list" where
  "ident_char = [Range CHR ''a'' CHR ''z'', Range CHR ''A'' CHR ''Z'', Range CHR ''0'' CHR ''9'',
     Member CHR ''_'', Member CHR ''.'']"

text \<open>\<^verbatim>\<open>\\\(([a-zA-Z_][a-zA-Z0-9_.]*)\\\)\<close>: in the raw string \<^verbatim>\<open>\\\<close> is a literal backslash and
  \<^verbatim>\<open>\(\<close>, \<^verbatim>\<open>\)\<close> are literal parentheses; the unescaped pair is group 1.\<close>

definition pattern :: "rx_op list" where
  "pattern = [Literal BS, Literal CHR ''('', Mark 0, In ident_start, Max_repeat ident_char,
     Mark 1, Literal BS, Literal CHR '')'']"

text \<open>The replacement template \<^verbatim>\<open>(\1)\<close>: a literal, the text of group 1, a literal.\<close>

datatype tmpl = Lit char | Group nat

definition replacement :: "tmpl list" where
  "replacement = [Lit CHR ''('', Group 1, Lit CHR '')'']"

subsection \<open>Matching at one position\<close>

text \<open>
  \<open>rx_match ops s pos marks\<close> matches the operations against \<open>s\<close>, the text from the
  current position on; \<open>pos\<close> counts the characters consumed since the start of the
  attempt. The result is the end of the match and the marks, or \<open>None\<close>. The repetition
  is greedy and backtracks: it takes one more character of the class when it can and the
  rest of the pattern then matches, and otherwise goes on with the rest of the pattern
  from where it stands.
\<close>

fun rx_match :: "rx_op list \<Rightarrow> string \<Rightarrow> nat \<Rightarrow> nat list \<Rightarrow> (nat \<times> nat list) option" where
  "rx_match [] s pos marks = Some (pos, marks)"
| "rx_match (Literal l # ops) [] pos marks = None"
| "rx_match (Literal l # ops) (c # cs) pos marks =
     (if c = l then rx_match ops cs (Suc pos) marks else None)"
| "rx_match (In cls # ops) [] pos marks = None"
| "rx_match (In cls # ops) (c # cs) pos marks =
     (if in_class cls c then rx_match ops cs (Suc pos) marks else None)"
| "rx_match (Max_repeat cls # ops) [] pos marks = rx_match ops [] pos marks"
| "rx_match (Max_repeat cls # ops) (c # cs) pos marks =
     (if in_class cls c
      then (case rx_match (Max_repeat cls # ops) cs (Suc pos) marks of
              Some r \<Rightarrow> Some r
            | None \<Rightarrow> rx_match ops (c # cs) pos marks)
      else rx_match ops (c # cs) pos marks)"
| "rx_match (Mark i # ops) s pos marks = rx_match ops s pos (marks[i := pos])"

subsection \<open>Expanding the template\<close>

text \<open>Group \<open>g\<close> is the text between marks \<open>2 * (g - 1)\<close> and \<open>2 * (g - 1) + 1\<close> of the match
  that starts at the head of \<open>s\<close>.\<close>

definition group :: "string \<Rightarrow> nat list \<Rightarrow> nat \<Rightarrow> string" where
  "group s marks g =
     (let b = marks ! (2 * (g - 1)); e = marks ! (2 * (g - 1) + 1) in take (e - b) (drop b s))"

fun expand :: "tmpl list \<Rightarrow> string \<Rightarrow> nat list \<Rightarrow> string" where
  "expand [] s marks = []"
| "expand (Lit c # t) s marks = c # expand t s marks"
| "expand (Group g # t) s marks = group s marks g @ expand t s marks"

subsection \<open>The substitution\<close>

text \<open>
  \<^verbatim>\<open>re.sub\<close> and \<^verbatim>\<open>re.subn\<close> are one loop; \<^verbatim>\<open>re.subn\<close> also returns the number of
  replacements made, \<^verbatim>\<open>re.sub\<close> only the text. The loop scans the text from the left. Where
  the pattern matches, the expanded template is emitted and the scan goes on behind the
  match; where it does not, the character is copied and the scan moves one character on.
  Every match of \<open>pattern\<close> consumes at least five characters (lemma \<open>match_sound\<close>), so the
  rule of the loop for empty matches never applies and is not modelled. The two marks of
  the one group start at 0.
\<close>

fun re_subn :: "rx_op list \<Rightarrow> tmpl list \<Rightarrow> string \<Rightarrow> string \<times> nat" where
  "re_subn p r [] = ([], 0)"
| "re_subn p r (c # cs) =
     (case rx_match p (c # cs) 0 [0, 0] of
        None \<Rightarrow> (case re_subn p r cs of (out, n) \<Rightarrow> (c # out, n))
      | Some (e, marks) \<Rightarrow>
          (case re_subn p r (drop (e - 1) cs) of
             (out, n) \<Rightarrow> (expand r (c # cs) marks @ out, Suc n)))"

definition re_sub :: "rx_op list \<Rightarrow> tmpl list \<Rightarrow> string \<Rightarrow> string" where
  "re_sub p r s = fst (re_subn p r s)"

text \<open>\<^verbatim>\<open>content1 = re.sub(pattern, replacement, content)\<close>\<close>

definition content1 :: "string \<Rightarrow> string" where
  "content1 content = re_sub pattern replacement content"

subsection \<open>Placeholders and their occurrences in a text\<close>

text \<open>
  The texts group 1 of the pattern can hold, \<^verbatim>\<open>[a-zA-Z_][a-zA-Z0-9_.]*\<close>, an identifier
  between the escaped parentheses of the pattern, and between the plain parentheses of the
  replacement.
\<close>

definition is_identifier :: "string \<Rightarrow> bool" where
  "is_identifier i =
     (case i of [] \<Rightarrow> False
      | c # cs \<Rightarrow> in_class ident_start c \<and> list_all (in_class ident_char) cs)"

definition escaped :: "string \<Rightarrow> string" where
  "escaped i = BS # CHR ''('' # i @ [BS, CHR '')'']"

definition unescaped :: "string \<Rightarrow> string" where
  "unescaped i = CHR ''('' # i @ [CHR '')'']"

text \<open>
  The occurrences of the pattern in a text, as spans (start, end): every position at
  which the pattern matches, with the end of the match there.
\<close>

definition match_span :: "string \<Rightarrow> nat \<Rightarrow> (nat \<times> nat) option" where
  "match_span s k =
     (case rx_match pattern (drop k s) 0 [0, 0] of
        None \<Rightarrow> None
      | Some (e, marks) \<Rightarrow> Some (k, k + e))"

definition occurrences :: "string \<Rightarrow> (nat \<times> nat) list" where
  "occurrences s = List.map_filter (match_span s) [0..<length s]"

subsection \<open>The substitution, stated without the scan\<close>

text \<open>
  The invariant of the specification, as a relation between input and output that does
  not mention the matcher.
  \<open>replaced s out\<close>: \<open>out\<close> is \<open>s\<close> with the matches replaced, leftmost first. From the
  left, a text that starts with an escaped identifier has it replaced by the identifier in
  plain parentheses, and the rest is treated behind it; a character at which no escaped
  identifier starts is kept as it is.
\<close>

inductive replaced :: "string \<Rightarrow> string \<Rightarrow> bool" where
  replaced_Nil: "replaced [] []"
| replaced_match:
    "is_identifier i \<Longrightarrow> replaced rest out \<Longrightarrow> replaced (escaped i @ rest) (unescaped i @ out)"
| replaced_copy:
    "\<not> (\<exists>i rest. is_identifier i \<and> c # cs = escaped i @ rest) \<Longrightarrow> replaced cs out \<Longrightarrow>
     replaced (c # cs) (c # out)"

subsection \<open>The pattern in the words of the specification\<close>

text \<open>
  ``A backslash, an open parenthesis, one or more characters drawn from the set {letters,
  underscore} followed by zero or more characters drawn from {letters, digits, underscore,
  period}, a backslash, a close parenthesis.'' Letters and digits are listed one by one.
\<close>

definition spec_letter :: "char \<Rightarrow> bool" where
  "spec_letter c = (c \<in> set ''abcdefghijklmnopqrstuvwxyzABCDEFGHIJKLMNOPQRSTUVWXYZ'')"

definition spec_digit :: "char \<Rightarrow> bool" where
  "spec_digit c = (c \<in> set ''0123456789'')"

definition spec_first :: "char \<Rightarrow> bool" where
  "spec_first c = (spec_letter c \<or> c = CHR ''_'')"

definition spec_rest :: "char \<Rightarrow> bool" where
  "spec_rest c = (spec_letter c \<or> spec_digit c \<or> c = CHR ''_'' \<or> c = CHR ''.'')"

definition spec_pattern :: "string \<Rightarrow> bool" where
  "spec_pattern w =
     (\<exists>h t. w = [BS, CHR ''(''] @ h @ t @ [BS, CHR '')''] \<and> h \<noteq> [] \<and>
        list_all spec_first h \<and> list_all spec_rest t)"

section \<open>Properties of the substitution\<close>

subsection \<open>What the matcher accepts\<close>

lemma re_sub_Nil [simp]: "re_sub p r [] = []"
  by (simp add: re_sub_def)

lemma re_sub_Cons:
  "re_sub p r (c # cs) =
     (case rx_match p (c # cs) 0 [0, 0] of
        None \<Rightarrow> c # re_sub p r cs
      | Some (e, marks) \<Rightarrow> expand r (c # cs) marks @ re_sub p r (drop (e - 1) cs))"
  by (simp add: re_sub_def split: option.split prod.split)

lemma BS_not_ident_char: "\<not> in_class ident_char BS"
  by (simp add: in_class_def ident_char_def)

lemma ident_start_char: "in_class ident_start c \<Longrightarrow> in_class ident_char c"
  by (auto simp add: in_class_def ident_start_def ident_char_def)

lemma repeat_complete:
  "list_all (in_class ident_char) t \<Longrightarrow>
   rx_match [Max_repeat ident_char, Mark 1, Literal BS, Literal CHR '')''] (t @ BS # CHR '')'' # rest) pos marks
     = Some (pos + length t + 2, marks[1 := pos + length t])"
proof (induction t arbitrary: pos)
  case Nil
  show ?case by (simp add: BS_not_ident_char)
next
  case (Cons c t)
  then show ?case by simp
qed

lemma repeat_sound:
  "rx_match [Max_repeat ident_char, Mark 1, Literal BS, Literal CHR '')''] s pos marks = Some (e, m) \<Longrightarrow>
   \<exists>t rest. list_all (in_class ident_char) t \<and> s = t @ BS # CHR '')'' # rest \<and>
      e = pos + length t + 2 \<and> m = marks[1 := pos + length t]"
proof (induction s arbitrary: pos)
  case Nil
  then show ?case by simp
next
  case (Cons c cs)
  show ?case
  proof (cases "in_class ident_char c")
    case True
    then have "c \<noteq> BS" using BS_not_ident_char by auto
    with Cons.prems True
    have "rx_match [Max_repeat ident_char, Mark 1, Literal BS, Literal CHR '')''] cs (Suc pos) marks = Some (e, m)"
      by (simp split: option.splits)
    from Cons.IH [OF this] obtain t rest where
      "list_all (in_class ident_char) t" "cs = t @ BS # CHR '')'' # rest"
      "e = Suc pos + length t + 2" "m = marks[1 := Suc pos + length t]" by blast
    with True show ?thesis
      by (intro exI [of _ "c # t"] exI [of _ rest]) simp
  next
    case False
    with Cons.prems obtain rest where "c = BS" "cs = CHR '')'' # rest" "e = pos + 2" "m = marks[1 := pos]"
      by (cases cs) (auto split: if_splits)
    then show ?thesis
      by (intro exI [of _ "[]"] exI [of _ rest]) simp
  qed
qed

lemma match_complete:
  assumes "is_identifier i"
  shows "rx_match pattern (escaped i @ rest) 0 [0, 0] = Some (length i + 4, [2, length i + 2])"
proof -
  from assms obtain c t where i: "i = c # t" and c: "in_class ident_start c"
    and t: "list_all (in_class ident_char) t"
    by (auto simp: is_identifier_def split: list.splits)
  show ?thesis
    using c repeat_complete [OF t, of rest "Suc (Suc (Suc 0))" "[Suc (Suc 0), 0]"]
    by (simp add: pattern_def escaped_def i)
qed

lemma match_sound:
  assumes "rx_match pattern s 0 [0, 0] = Some (e, m)"
  shows "\<exists>i rest. is_identifier i \<and> s = escaped i @ rest \<and> e = length i + 4 \<and> m = [2, length i + 2]"
proof -
  from assms obtain c cs where s: "s = BS # CHR ''('' # c # cs" and c: "in_class ident_start c"
    and r: "rx_match [Max_repeat ident_char, Mark 1, Literal BS, Literal CHR '')''] cs (Suc (Suc (Suc 0))) [Suc (Suc 0), 0] = Some (e, m)"
    by (cases s; cases "tl s"; cases "tl (tl s)") (auto simp: pattern_def split: if_splits)
  from repeat_sound [OF r] obtain t rest where
    "list_all (in_class ident_char) t" "cs = t @ BS # CHR '')'' # rest"
    "e = Suc (Suc (Suc 0)) + length t + 2" "m = [Suc (Suc 0), 0][1 := Suc (Suc (Suc 0)) + length t]" by blast
  with s c show ?thesis
    by (intro exI [of _ "c # t"] exI [of _ rest]) (simp add: is_identifier_def escaped_def)
qed


lemma expand_replacement:
  "expand replacement (BS # CHR ''('' # i @ x) [2, length i + 2] = unescaped i"
  by (simp add: replacement_def group_def unescaped_def numeral_2_eq_2)

lemma drop_behind_match:
  "drop (length i + 4 - 1) (CHR ''('' # i @ BS # CHR '')'' # rest) = rest"
  by (simp add: numeral_3_eq_3)

lemma content1_Nil [simp]: "content1 [] = []"
  by (simp add: content1_def)

lemma content1_match:
  assumes "is_identifier i"
  shows "content1 (escaped i @ rest) = unescaped i @ content1 rest"
proof -
  define cs where "cs = CHR ''('' # i @ BS # CHR '')'' # rest"
  have e: "escaped i @ rest = BS # cs"
    by (simp add: escaped_def cs_def)
  have m: "rx_match pattern (BS # cs) 0 [0, 0] = Some (length i + 4, [2, length i + 2])"
    using match_complete [OF assms, of rest] by (simp only: e)
  have "content1 (BS # cs) =
      expand replacement (BS # cs) [2, length i + 2] @ content1 (drop (length i + 4 - 1) cs)"
    by (simp only: content1_def re_sub_Cons m option.case prod.case)
  also have "expand replacement (BS # cs) [2, length i + 2] = unescaped i"
    unfolding cs_def by (rule expand_replacement)
  also have "drop (length i + 4 - 1) cs = rest"
    unfolding cs_def by (rule drop_behind_match)
  finally show ?thesis by (simp only: e)
qed

lemma content1_copy:
  assumes "rx_match pattern (c # cs) 0 [0, 0] = None"
  shows "content1 (c # cs) = c # content1 cs"
  using assms by (simp add: content1_def re_sub_Cons)

lemma no_match_iff:
  "(rx_match pattern s 0 [0, 0] = None) = (\<not> (\<exists>i rest. is_identifier i \<and> s = escaped i @ rest))"
proof
  assume "rx_match pattern s 0 [0, 0] = None"
  then show "\<not> (\<exists>i rest. is_identifier i \<and> s = escaped i @ rest)"
    using match_complete by fastforce
next
  assume "\<not> (\<exists>i rest. is_identifier i \<and> s = escaped i @ rest)"
  then show "rx_match pattern s 0 [0, 0] = None"
    using match_sound by (cases "rx_match pattern s 0 [0, 0]") fastforce+
qed

lemma replaced_content1: "replaced s (content1 s)"
proof (induction s rule: length_induct)
  case (1 s)
  show ?case
  proof (cases "rx_match pattern s 0 [0, 0]")
    case None
    show ?thesis
    proof (cases s)
      case Nil
      then show ?thesis by (simp add: replaced_Nil)
    next
      case (Cons c cs)
      with None have "\<not> (\<exists>i rest. is_identifier i \<and> c # cs = escaped i @ rest)"
        by (simp add: no_match_iff)
      moreover have "replaced cs (content1 cs)" using 1 Cons by simp
      ultimately show ?thesis
        using None Cons by (simp add: content1_copy replaced_copy)
    qed
  next
    case (Some r)
    then obtain i rest where i: "is_identifier i" and s: "s = escaped i @ rest"
      using match_sound [of s "fst r" "snd r"] by auto
    have "length rest < length s" by (simp add: s escaped_def)
    then have "replaced rest (content1 rest)" using 1 by simp
    then show ?thesis
      by (simp add: s content1_match [OF i] replaced_match [OF i])
  qed
qed

lemma replaced_unique: "replaced s out \<Longrightarrow> out = content1 s"
proof (induction rule: replaced.induct)
  case replaced_Nil
  show ?case by simp
next
  case (replaced_match i rest out)
  then show ?case by (simp add: content1_match)
next
  case (replaced_copy c cs out)
  then show ?case by (simp add: content1_copy no_match_iff)
qed

subsection \<open>Functional correctness of the substitution\<close>

text \<open>
  Claim C1. For every input, the output of the substitution is the input with every match
  of the pattern, taken leftmost first and without overlap, replaced by the matched
  identifier between plain parentheses (the two backslashes dropped, the identifier kept
  as it is), and every character outside the matches kept: the output is the one text
  that \<open>replaced\<close> relates to the input.
\<close>

theorem substitution_replaces_matches:
  "replaced s out = (out = content1 s)"
  using replaced_content1 [of s] replaced_unique [of s out] by blast

theorem substitution_replaces_matches_witness:
  "replaced (''x = '' @ BS # ''(a.b'' @ BS # ''); '' @ BS # ''y'') (''x = (a.b); '' @ [BS, CHR ''y''])"
  using substitution_replaces_matches
    [of "''x = '' @ BS # ''(a.b'' @ BS # ''); '' @ BS # ''y''" "''x = (a.b); '' @ [BS, CHR ''y'']"]
  by (simp add: content1_def re_sub_def pattern_def replacement_def ident_start_def
      ident_char_def in_class_def group_def)

subsection \<open>The pattern of the code and the pattern of the specification\<close>

lemma ident_start_spec: "in_class ident_start c = spec_first c"
  unfolding in_class_def ident_start_def spec_first_def spec_letter_def
  by (cases c) simp

lemma ident_char_spec: "in_class ident_char c = spec_rest c"
  unfolding in_class_def ident_char_def spec_rest_def spec_letter_def spec_digit_def
  by (cases c) simp

lemma ident_start_spec_fun: "in_class ident_start = spec_first"
  by (rule ext) (rule ident_start_spec)

lemma ident_char_spec_fun: "in_class ident_char = spec_rest"
  by (rule ext) (rule ident_char_spec)

lemma spec_first_rest: "spec_first c \<Longrightarrow> spec_rest c"
  by (auto simp add: spec_first_def spec_rest_def)

lemma is_identifier_spec:
  "is_identifier i =
     (\<exists>h t. i = h @ t \<and> h \<noteq> [] \<and> list_all spec_first h \<and> list_all spec_rest t)"
proof
  assume "is_identifier i"
  then obtain c cs where "i = [c] @ cs" "list_all spec_first [c]" "list_all spec_rest cs"
    by (auto simp: is_identifier_def ident_start_spec ident_char_spec_fun split: list.splits)
  then show "\<exists>h t. i = h @ t \<and> h \<noteq> [] \<and> list_all spec_first h \<and> list_all spec_rest t"
    by blast
next
  assume "\<exists>h t. i = h @ t \<and> h \<noteq> [] \<and> list_all spec_first h \<and> list_all spec_rest t"
  then obtain h t where i: "i = h @ t" and h: "h \<noteq> []" "list_all spec_first h"
    and t: "list_all spec_rest t" by blast
  from h obtain c h' where c: "h = c # h'" "spec_first c" "list_all spec_rest h'"
    by (cases h) (auto simp: list_all_iff spec_first_rest)
  with t show "is_identifier i"
    by (simp add: is_identifier_def i ident_start_spec ident_char_spec_fun)
qed

lemma spec_pattern_escaped: "spec_pattern w = (\<exists>i. is_identifier i \<and> w = escaped i)"
proof
  assume "spec_pattern w"
  then obtain h t where "w = [BS, CHR ''(''] @ h @ t @ [BS, CHR '')'']" "h \<noteq> []"
    "list_all spec_first h" "list_all spec_rest t"
    unfolding spec_pattern_def by blast
  then have "is_identifier (h @ t) \<and> w = escaped (h @ t)"
    unfolding is_identifier_spec escaped_def by auto
  then show "\<exists>i. is_identifier i \<and> w = escaped i" ..
next
  assume "\<exists>i. is_identifier i \<and> w = escaped i"
  then obtain h t where "w = escaped (h @ t)" "h \<noteq> []"
    "list_all spec_first h" "list_all spec_rest t"
    unfolding is_identifier_spec by blast
  then show "spec_pattern w"
    unfolding spec_pattern_def escaped_def by auto
qed

lemma length_escaped [simp]: "length (escaped i) = length i + 4"
  by (simp add: escaped_def)

lemma length_unescaped [simp]: "length (unescaped i) = length i + 2"
  by (simp add: unescaped_def)

text \<open>
  Claim C2. The texts the code's pattern matches are exactly the texts the specification
  describes: for every input \<open>s\<close>, the pattern matches at the head of \<open>s\<close> and ends at \<open>e\<close>
  if and only if the first \<open>e\<close> characters of \<open>s\<close> are a backslash, an open parenthesis,
  one or more characters of {letters, underscore}, zero or more characters of {letters,
  digits, underscore, period}, a backslash and a close parenthesis.
\<close>

theorem pattern_language:
  "(\<exists>m. rx_match pattern s 0 [0, 0] = Some (e, m)) = (e \<le> length s \<and> spec_pattern (take e s))"
proof
  assume "\<exists>m. rx_match pattern s 0 [0, 0] = Some (e, m)"
  then obtain m where "rx_match pattern s 0 [0, 0] = Some (e, m)" ..
  from match_sound [OF this] obtain i rest where
    "is_identifier i" "s = escaped i @ rest" "e = length i + 4" by blast
  then show "e \<le> length s \<and> spec_pattern (take e s)"
    by (auto simp: spec_pattern_escaped)
next
  assume a: "e \<le> length s \<and> spec_pattern (take e s)"
  then obtain i where i: "is_identifier i" and t: "take e s = escaped i"
    by (auto simp: spec_pattern_escaped)
  from a t have e: "e = length i + 4"
    by (metis length_escaped length_take min.absorb2)
  have "s = escaped i @ drop e s"
    using t by (metis append_take_drop_id)
  with match_complete [OF i, of "drop e s"] e
  show "\<exists>m. rx_match pattern s 0 [0, 0] = Some (e, m)" by auto
qed

theorem pattern_language_witness:
  "spec_pattern (BS # ''(b_1.c'' @ [BS, CHR '')''])"
  using pattern_language [of "BS # ''(b_1.c'' @ [BS, CHR '')''] @ ''; rest''" 9]
  by (simp add: pattern_def ident_start_def ident_char_def in_class_def)

subsection \<open>Occurrences and the scan\<close>

lemma ident_char_plain: "in_class ident_char c \<Longrightarrow> c \<noteq> BS \<and> c \<noteq> CHR ''('' \<and> c \<noteq> CHR '')''"
  by (auto simp: in_class_def ident_char_def)

lemma identifier_chars: "is_identifier i \<Longrightarrow> list_all (in_class ident_char) i"
  by (auto simp: is_identifier_def ident_start_char split: list.splits)

lemma identifier_plain:
  "is_identifier i \<Longrightarrow> BS \<notin> set i \<and> CHR ''('' \<notin> set i \<and> CHR '')'' \<notin> set i"
  using identifier_chars [of i] ident_char_plain by (auto simp: list_all_iff)

lemma identifier_nonempty: "is_identifier i \<Longrightarrow> i \<noteq> []"
  by (auto simp: is_identifier_def)

text \<open>Where the first backslash of a text stands.\<close>

lemma first_backslash:
  "BS \<notin> set j \<Longrightarrow> j @ BS # y = p @ BS # z \<Longrightarrow>
   (p = j \<and> y = z) \<or> (\<exists>w. p = j @ BS # w \<and> y = w @ BS # z)"
proof (induction j arbitrary: p)
  case Nil
  then show ?case by (cases p) auto
next
  case (Cons c j)
  then show ?case by (cases p) auto
qed

lemma match_span_iff:
  "(match_span s k = Some (b, e)) =
     (\<exists>i rest. is_identifier i \<and> drop k s = escaped i @ rest \<and> b = k \<and> e = k + length i + 4)"
proof
  assume "match_span s k = Some (b, e)"
  then obtain e' m where m: "rx_match pattern (drop k s) 0 [0, 0] = Some (e', m)"
    and be: "b = k" "e = k + e'"
    by (auto simp: match_span_def split: option.splits)
  from match_sound [OF m] be
  show "\<exists>i rest. is_identifier i \<and> drop k s = escaped i @ rest \<and> b = k \<and> e = k + length i + 4"
    by auto
next
  assume "\<exists>i rest. is_identifier i \<and> drop k s = escaped i @ rest \<and> b = k \<and> e = k + length i + 4"
  then obtain i rest where i: "is_identifier i" and d: "drop k s = escaped i @ rest"
    and be: "b = k" "e = k + length i + 4" by blast
  from match_complete [OF i, of rest] d be show "match_span s k = Some (b, e)"
    by (simp add: match_span_def)
qed

lemma occurrences_iff:
  "((b, e) \<in> set (occurrences s)) =
     (\<exists>pre i rest. is_identifier i \<and> s = pre @ escaped i @ rest \<and> b = length pre \<and>
        e = length pre + length i + 4)"
proof
  assume "(b, e) \<in> set (occurrences s)"
  then obtain k where k: "k < length s" and m: "match_span s k = Some (b, e)"
    by (auto simp: occurrences_def map_filter_def split: option.splits)
  from m obtain i rest where i: "is_identifier i" and d: "drop k s = escaped i @ rest"
    and be: "b = k" "e = k + length i + 4"
    by (auto simp: match_span_iff)
  have "s = take k s @ escaped i @ rest" using d by (metis append_take_drop_id)
  moreover have "length (take k s) = k" using k by simp
  ultimately show "\<exists>pre i rest. is_identifier i \<and> s = pre @ escaped i @ rest \<and> b = length pre \<and>
        e = length pre + length i + 4"
    using i be by metis
next
  assume "\<exists>pre i rest. is_identifier i \<and> s = pre @ escaped i @ rest \<and> b = length pre \<and>
        e = length pre + length i + 4"
  then obtain pre i rest where i: "is_identifier i" and s: "s = pre @ escaped i @ rest"
    and be: "b = length pre" "e = length pre + length i + 4" by blast
  have "match_span s (length pre) = Some (b, e)"
    using i be by (auto simp: match_span_iff s)
  moreover have "length pre < length s" by (simp add: s)
  ultimately show "(b, e) \<in> set (occurrences s)"
    by (force simp: occurrences_def map_filter_def)
qed

text \<open>A match that starts before an escaped open parenthesis ends before it.\<close>

lemma match_before_escape:
  assumes j: "is_identifier j"
    and eq: "escaped j @ rest = pre @ BS # CHR ''('' # x"
    and pre: "pre \<noteq> []"
  shows "\<exists>pre'. pre = escaped j @ pre' \<and> rest = pre' @ BS # CHR ''('' # x"
proof -
  from eq pre obtain p1 where p1: "pre = BS # p1"
    and e1: "CHR ''('' # j @ BS # CHR '')'' # rest = p1 @ BS # CHR ''('' # x"
    by (cases pre) (auto simp: escaped_def)
  from e1 obtain p2 where p2: "p1 = CHR ''('' # p2"
    and e2: "j @ BS # CHR '')'' # rest = p2 @ BS # CHR ''('' # x"
    by (cases p1) auto
  from j have "BS \<notin> set j" by (simp add: identifier_plain)
  from first_backslash [OF this e2]
  obtain w where w: "p2 = j @ BS # w" and r: "CHR '')'' # rest = w @ BS # CHR ''('' # x"
    by auto
  from r obtain w' where w': "w = CHR '')'' # w'" and r': "rest = w' @ BS # CHR ''('' # x"
    by (cases w) auto
  show ?thesis
    by (rule exI [of _ w']) (simp add: p1 p2 w w' r' escaped_def)
qed

lemma match_Some:
  assumes "rx_match pattern s 0 [0, 0] = Some r"
  shows "\<exists>i rest. is_identifier i \<and> s = escaped i @ rest"
proof -
  obtain e m where "r = (e, m)" by (cases r)
  with assms match_sound [of s e m] show ?thesis by blast
qed

lemma match_extends:
  "rx_match pattern s 0 [0, 0] = Some r \<Longrightarrow> rx_match pattern (s @ x) 0 [0, 0] = Some r"
proof -
  assume a: "rx_match pattern s 0 [0, 0] = Some r"
  obtain e m where r: "r = (e, m)" by (cases r)
  from match_sound [OF a [unfolded r]] obtain i rest where
    "is_identifier i" "s = escaped i @ rest" "e = length i + 4" "m = [2, length i + 2]" by blast
  then show ?thesis using match_complete [of i "rest @ x"] by (simp add: r)
qed

lemma content1_before_escape:
  "content1 (pre @ BS # CHR ''('' # x) = content1 pre @ content1 (BS # CHR ''('' # x)"
proof (induction pre rule: length_induct)
  case (1 pre)
  show ?case
  proof (cases pre)
    case Nil
    then show ?thesis by simp
  next
    case (Cons c cs)
    show ?thesis
    proof (cases "rx_match pattern (pre @ BS # CHR ''('' # x) 0 [0, 0]")
      case None
      then have "rx_match pattern pre 0 [0, 0] = None"
        using match_extends [of pre _ "BS # CHR ''('' # x"] by (cases "rx_match pattern pre 0 [0, 0]") auto
      with None 1 Cons show ?thesis
        by (simp add: content1_copy)
    next
      case (Some r)
      then obtain j rest where j: "is_identifier j"
        and s: "pre @ BS # CHR ''('' # x = escaped j @ rest"
        using match_Some by metis
      from match_before_escape [OF j s [symmetric]] Cons
      obtain pre' where p: "pre = escaped j @ pre'" and r: "rest = pre' @ BS # CHR ''('' # x"
        by auto
      have "length pre' < length pre" by (simp add: p)
      with 1 have "content1 (pre' @ BS # CHR ''('' # x) = content1 pre' @ content1 (BS # CHR ''('' # x)"
        by simp
      then show ?thesis
        by (simp add: p content1_match [OF j])
    qed
  qed
qed

lemma content1_around_match:
  assumes "is_identifier i"
  shows "content1 (pre @ escaped i @ post) = content1 pre @ unescaped i @ content1 post"
proof -
  have "content1 (pre @ escaped i @ post) = content1 pre @ content1 (escaped i @ post)"
    using content1_before_escape [of pre "i @ BS # CHR '')'' # post"]
    by (simp add: escaped_def)
  then show ?thesis by (simp add: content1_match [OF assms])
qed

lemma occurrence_shift:
  "(b, e) \<in> set (occurrences y) \<Longrightarrow> (length x + b, length x + e) \<in> set (occurrences (x @ y))"
proof -
  assume "(b, e) \<in> set (occurrences y)"
  then obtain pre i rest where "is_identifier i" "y = pre @ escaped i @ rest" "b = length pre"
    "e = length pre + length i + 4"
    unfolding occurrences_iff by blast
  then have "is_identifier i \<and> x @ y = (x @ pre) @ escaped i @ rest \<and> length x + b = length (x @ pre) \<and>
     length x + e = length (x @ pre) + length i + 4" by simp
  then show ?thesis unfolding occurrences_iff by blast
qed

lemma occurrence_prefix:
  "(b, e) \<in> set (occurrences x) \<Longrightarrow> (b, e) \<in> set (occurrences (x @ y))"
proof -
  assume "(b, e) \<in> set (occurrences x)"
  then obtain pre i rest where "is_identifier i" "x = pre @ escaped i @ rest" "b = length pre"
    "e = length pre + length i + 4"
    unfolding occurrences_iff by blast
  then have "is_identifier i \<and> x @ y = pre @ escaped i @ (rest @ y) \<and> b = length pre \<and>
     e = length pre + length i + 4" by simp
  then show ?thesis unfolding occurrences_iff by blast
qed

lemma occurrence_inside: "(b, e) \<in> set (occurrences x) \<Longrightarrow> b < e \<and> e \<le> length x"
  unfolding occurrences_iff by auto

lemma occurrence_head:
  "rx_match pattern s 0 [0, 0] = Some (e, m) \<Longrightarrow> (0, e) \<in> set (occurrences s)"
proof -
  assume "rx_match pattern s 0 [0, 0] = Some (e, m)"
  from match_sound [OF this] obtain i rest where
    "is_identifier i \<and> s = [] @ escaped i @ rest \<and> 0 = length ([] :: string) \<and>
      e = length ([] :: string) + length i + 4"
    by auto
  then show ?thesis unfolding occurrences_iff by blast
qed

lemma no_occurrence_subn:
  assumes "occurrences s = []"
  shows "re_subn pattern replacement s = (s, 0)"
  using assms
proof (induction s)
  case Nil
  show ?case by simp
next
  case (Cons c cs)
  have "rx_match pattern (c # cs) 0 [0, 0] = None"
  proof (cases "rx_match pattern (c # cs) 0 [0, 0]")
    case (Some r)
    then have "(0, fst r) \<in> set (occurrences (c # cs))"
      using occurrence_head [of "c # cs" "fst r" "snd r"] by simp
    with Cons.prems show ?thesis by simp
  qed simp
  moreover have "occurrences cs = []"
  proof (rule ccontr)
    assume "occurrences cs \<noteq> []"
    then obtain b e where "(b, e) \<in> set (occurrences cs)"
      by (cases "occurrences cs") auto
    from occurrence_shift [OF this, of "[c]"] Cons.prems show False by simp
  qed
  ultimately show ?case using Cons.IH by simp
qed

lemma no_occurrence_copy: "occurrences s = [] \<Longrightarrow> content1 s = s"
  by (simp add: content1_def re_sub_def no_occurrence_subn)

text \<open>The scan can be cut at any position that no occurrence straddles.\<close>

lemma content1_split:
  assumes "\<forall>(b, e) \<in> set (occurrences (x @ y)). e \<le> length x \<or> length x \<le> b"
  shows "content1 (x @ y) = content1 x @ content1 y"
  using assms
proof (induction x rule: length_induct)
  case (1 x)
  show ?case
  proof (cases x)
    case Nil
    then show ?thesis by simp
  next
    case (Cons c cs)
    show ?thesis
    proof (cases "rx_match pattern (x @ y) 0 [0, 0]")
      case None
      then have nx: "rx_match pattern x 0 [0, 0] = None"
        using match_extends [of x _ y] by (cases "rx_match pattern x 0 [0, 0]") auto
      have "\<forall>(b, e) \<in> set (occurrences (cs @ y)). e \<le> length cs \<or> length cs \<le> b"
      proof (clarify)
        fix b e assume "(b, e) \<in> set (occurrences (cs @ y))" "\<not> length cs \<le> b"
        with occurrence_shift [of b e "cs @ y" "[c]"] "1.prems" Cons
        show "e \<le> length cs" by auto
      qed
      with 1 Cons have "content1 (cs @ y) = content1 cs @ content1 y" by simp
      with None nx Cons show ?thesis by (simp add: content1_copy)
    next
      case (Some r)
      obtain e m where r: "r = (e, m)" by (cases r)
      from match_sound [OF Some [unfolded r]] obtain j rest where j: "is_identifier j"
        and s: "x @ y = escaped j @ rest" and e: "e = length j + 4" by blast
      from occurrence_head [OF Some [unfolded r]] "1.prems" Cons have "e \<le> length x" by auto
      with s e have "take (length j + 4) x = escaped j"
        by (metis append_eq_conv_conj length_escaped take_append diff_is_0_eq take_0 append_Nil2)
      then obtain x' where x: "x = escaped j @ x'" by (metis append_take_drop_id)
      with s have rest: "rest = x' @ y" by simp
      have "\<forall>(b, e) \<in> set (occurrences (x' @ y)). e \<le> length x' \<or> length x' \<le> b"
      proof (clarify)
        fix b e assume "(b, e) \<in> set (occurrences (x' @ y))" "\<not> length x' \<le> b"
        with occurrence_shift [of b e "x' @ y" "escaped j"] "1.prems" x
        show "e \<le> length x'" by auto
      qed
      moreover have "length x' < length x" by (simp add: x)
      ultimately have "content1 (x' @ y) = content1 x' @ content1 y" using 1 by simp
      then show ?thesis by (simp add: x content1_match [OF j])
    qed
  qed
qed

subsection \<open>Inputs with several, one and no occurrence\<close>

lemma segments_replaced:
  "list_all (\<lambda>(t, i). occurrences t = [] \<and> is_identifier i) segs \<Longrightarrow> occurrences tail = [] \<Longrightarrow>
   content1 (concat (map (\<lambda>(t, i). t @ escaped i) segs) @ tail) =
     concat (map (\<lambda>(t, i). t @ unescaped i) segs) @ tail"
proof (induction segs)
  case Nil
  then show ?case by (simp add: no_occurrence_copy)
next
  case (Cons seg segs)
  obtain t i where seg: "seg = (t, i)" by (cases seg)
  with Cons.prems have t: "occurrences t = []" and i: "is_identifier i" by simp_all
  have "content1 (t @ escaped i @ concat (map (\<lambda>(t, i). t @ escaped i) segs) @ tail) =
      content1 t @ unescaped i @ content1 (concat (map (\<lambda>(t, i). t @ escaped i) segs) @ tail)"
    by (rule content1_around_match [OF i])
  with Cons t show ?case by (simp add: seg no_occurrence_copy)
qed

text \<open>
  Claim C3. In an input with several occurrences of the pattern each one is replaced on
  its own and every other character is kept: an input made of texts without occurrence,
  each followed by an escaped identifier, and a last text without occurrence, yields the
  same texts with the identifiers between plain parentheses; and an occurrence is replaced
  the same way whatever stands before and behind it. In particular \<^verbatim>\<open>\(a\) and \(b.c\)\<close>
  yields \<^verbatim>\<open>(a) and (b.c)\<close>, and \<^verbatim>\<open>Hello \(name\), you have \(count\) items.\<close> yields
  \<^verbatim>\<open>Hello (name), you have (count) items.\<close>
\<close>

theorem multiple_occurrences:
  "(list_all (\<lambda>(t, i). occurrences t = [] \<and> is_identifier i) segs \<and> occurrences tail = [] \<longrightarrow>
      content1 (concat (map (\<lambda>(t, i). t @ escaped i) segs) @ tail) =
        concat (map (\<lambda>(t, i). t @ unescaped i) segs) @ tail) \<and>
   (is_identifier i \<longrightarrow>
      content1 (pre @ escaped i @ post) = content1 pre @ unescaped i @ content1 post) \<and>
   content1 (BS # ''(a'' @ BS # '') and '' @ BS # ''(b.c'' @ [BS, CHR '')'']) = ''(a) and (b.c)'' \<and>
   content1 (''Hello '' @ BS # ''(name'' @ BS # ''), you have '' @ BS # ''(count'' @ BS # '') items.'')
     = ''Hello (name), you have (count) items.''"
proof (intro conjI impI)
  assume "list_all (\<lambda>(t, i). occurrences t = [] \<and> is_identifier i) segs \<and> occurrences tail = []"
  then show "content1 (concat (map (\<lambda>(t, i). t @ escaped i) segs) @ tail) =
        concat (map (\<lambda>(t, i). t @ unescaped i) segs) @ tail"
    by (simp add: segments_replaced)
next
  assume "is_identifier i"
  then show "content1 (pre @ escaped i @ post) = content1 pre @ unescaped i @ content1 post"
    by (rule content1_around_match)
next
  show "content1 (BS # ''(a'' @ BS # '') and '' @ BS # ''(b.c'' @ [BS, CHR '')'']) = ''(a) and (b.c)''"
    by code_simp
next
  show "content1 (''Hello '' @ BS # ''(name'' @ BS # ''), you have '' @ BS # ''(count'' @ BS # '') items.'')
     = ''Hello (name), you have (count) items.''"
    by code_simp
qed

theorem multiple_occurrences_witness:
  "list_all (\<lambda>(t, i). occurrences t = [] \<and> is_identifier i) [(''x = '', ''a''), ('' + '', ''b.c'')] \<and>
   occurrences '';'' = [] \<and> is_identifier ''b.c'' \<and>
   content1 (''x = '' @ escaped ''a'' @ '' + '' @ escaped ''b.c'' @ '';'') =
     ''x = '' @ unescaped ''a'' @ '' + '' @ unescaped ''b.c'' @ '';'' \<and>
   content1 (''x = '' @ escaped ''b.c'' @ '';'') = content1 ''x = '' @ unescaped ''b.c'' @ content1 '';''"
proof -
  have h1: "list_all (\<lambda>(t, i). occurrences t = [] \<and> is_identifier i) [(''x = '', ''a''), ('' + '', ''b.c'')]"
    by code_simp
  have h2: "occurrences '';'' = []" by code_simp
  have h3: "is_identifier ''b.c''" by code_simp
  from multiple_occurrences [of "[(''x = '', ''a''), ('' + '', ''b.c'')]" "'';''" "''b.c''" "''x = ''" "'';''"]
    h1 h2 h3
  have "content1 (concat (map (\<lambda>(t, i). t @ escaped i) [(''x = '', ''a''), ('' + '', ''b.c'')]) @ '';'') =
        concat (map (\<lambda>(t, i). t @ unescaped i) [(''x = '', ''a''), ('' + '', ''b.c'')]) @ '';''"
    and "content1 (''x = '' @ escaped ''b.c'' @ '';'') = content1 ''x = '' @ unescaped ''b.c'' @ content1 '';''"
    by blast+
  with h1 h2 h3 show ?thesis by simp
qed

lemma only_occurrence:
  assumes i: "is_identifier i" and n: "length (occurrences (pre @ escaped i @ post)) = 1"
  shows "occurrences pre = [] \<and> occurrences post = []"
proof -
  let ?s = "pre @ escaped i @ post"
  have here: "(length pre, length pre + length i + 4) \<in> set (occurrences ?s)"
    unfolding occurrences_iff using i by blast
  from n obtain oc where oc: "occurrences ?s = [oc]"
    by (cases "occurrences ?s") auto
  with here have only: "set (occurrences ?s) = {(length pre, length pre + length i + 4)}" by simp
  have "occurrences pre = []"
  proof (rule ccontr)
    assume "occurrences pre \<noteq> []"
    then obtain b e where be: "(b, e) \<in> set (occurrences pre)"
      by (cases "occurrences pre") auto
    from occurrence_prefix [OF be, of "escaped i @ post"] only occurrence_inside [OF be]
    show False by auto
  qed
  moreover have "occurrences post = []"
  proof (rule ccontr)
    assume "occurrences post \<noteq> []"
    then obtain b e where be: "(b, e) \<in> set (occurrences post)"
      by (cases "occurrences post") auto
    from occurrence_shift [OF be, of "pre @ escaped i"] only
    show False by auto
  qed
  ultimately show ?thesis ..
qed

text \<open>
  Claim C4. In an input with exactly one occurrence of the pattern, the occurrence is
  replaced by its identifier between plain parentheses, the identifier kept as it is
  (digits and periods included), and the text around it is unchanged. In particular
  \<^verbatim>\<open>\(user.name\)\<close> yields \<^verbatim>\<open>(user.name)\<close> and \<^verbatim>\<open>\(item.price2\)\<close> yields \<^verbatim>\<open>(item.price2)\<close>.
\<close>

theorem single_occurrence:
  "(is_identifier i \<and> length (occurrences (pre @ escaped i @ post)) = 1 \<longrightarrow>
      content1 (pre @ escaped i @ post) = pre @ unescaped i @ post) \<and>
   content1 (BS # ''(user.name'' @ [BS, CHR '')'']) = ''(user.name)'' \<and>
   content1 (BS # ''(item.price2'' @ [BS, CHR '')'']) = ''(item.price2)''"
proof (intro conjI impI)
  assume a: "is_identifier i \<and> length (occurrences (pre @ escaped i @ post)) = 1"
  then have "occurrences pre = [] \<and> occurrences post = []"
    using only_occurrence by blast
  with a show "content1 (pre @ escaped i @ post) = pre @ unescaped i @ post"
    by (simp add: content1_around_match no_occurrence_copy)
next
  show "content1 (BS # ''(user.name'' @ [BS, CHR '')'']) = ''(user.name)''"
    by code_simp
next
  show "content1 (BS # ''(item.price2'' @ [BS, CHR '')'']) = ''(item.price2)''"
    by code_simp
qed

theorem single_occurrence_witness:
  "is_identifier ''user.name'' \<and>
   length (occurrences (''Hi '' @ escaped ''user.name'' @ ''!'')) = 1 \<and>
   content1 (''Hi '' @ escaped ''user.name'' @ ''!'') = ''Hi '' @ unescaped ''user.name'' @ ''!''"
proof -
  have h1: "is_identifier ''user.name''" by code_simp
  have h2: "length (occurrences (''Hi '' @ escaped ''user.name'' @ ''!'')) = 1" by code_simp
  from single_occurrence [of "''user.name''" "''Hi ''" "''!''"] h1 h2
  show ?thesis by blast
qed

text \<open>
  Claim C5. For an input with no occurrence of the pattern the output of the substitution
  is the input.
\<close>

theorem no_occurrence_unchanged:
  "occurrences s = [] \<Longrightarrow> content1 s = s"
  by (rule no_occurrence_copy)

theorem no_occurrence_unchanged_witness:
  "occurrences (''let s = f(x) + '' @ BS # ''n'') = [] \<and>
   content1 (''let s = f(x) + '' @ BS # ''n'') = ''let s = f(x) + '' @ BS # ''n''"
proof -
  have h: "occurrences (''let s = f(x) + '' @ BS # ''n'') = []" by code_simp
  show ?thesis using h no_occurrence_unchanged [OF h] by simp
qed

subsection \<open>Text that is not a match\<close>

lemma region_untouched:
  assumes "\<forall>(b, e) \<in> set (occurrences (pre @ w @ post)). e \<le> length pre \<or> length pre + length w \<le> b"
  shows "content1 (pre @ w @ post) = content1 pre @ w @ content1 post"
proof -
  have "\<forall>(b, e) \<in> set (occurrences (pre @ w @ post)). e \<le> length pre \<or> length pre \<le> b"
    using assms by fastforce
  then have 1: "content1 (pre @ w @ post) = content1 pre @ content1 (w @ post)"
    by (rule content1_split)
  have "\<forall>(b, e) \<in> set (occurrences (w @ post)). e \<le> length w \<or> length w \<le> b"
  proof (clarify)
    fix b e assume be: "(b, e) \<in> set (occurrences (w @ post))" "\<not> length w \<le> b"
    from occurrence_shift [OF be(1), of pre] assms occurrence_inside [OF be(1)] be(2)
    show "e \<le> length w" by auto
  qed
  then have 2: "content1 (w @ post) = content1 w @ content1 post"
    by (rule content1_split)
  have "occurrences w = []"
  proof (rule ccontr)
    assume "occurrences w \<noteq> []"
    then obtain b e where be: "(b, e) \<in> set (occurrences w)"
      by (cases "occurrences w") auto
    from occurrence_shift [OF occurrence_prefix [OF be, of post], of pre] assms
      occurrence_inside [OF be]
    show False by auto
  qed
  then have 3: "content1 w = w" by (rule no_occurrence_copy)
  from 1 2 3 show ?thesis by simp
qed

lemma no_match_head: "c \<noteq> BS \<Longrightarrow> rx_match pattern (c # cs) 0 [0, 0] = None"
  by (simp add: pattern_def)

lemma no_match_paren: "c \<noteq> CHR ''('' \<Longrightarrow> rx_match pattern (BS # c # cs) 0 [0, 0] = None"
  by (simp add: pattern_def)

lemma no_match_start: "\<not> in_class ident_start c \<Longrightarrow> rx_match pattern (BS # CHR ''('' # c # cs) 0 [0, 0] = None"
  by (simp add: pattern_def)

lemma digit_start: "content1 (BS # ''(2x'' @ BS # '')'' @ post) = BS # ''(2x'' @ BS # '')'' @ content1 post"
  by (simp add: content1_copy no_match_head no_match_paren no_match_start in_class_def ident_start_def)

lemma empty_identifier: "content1 (BS # ''('' @ BS # '')'' @ post) = BS # ''('' @ BS # '')'' @ content1 post"
  by (simp add: content1_copy no_match_head no_match_paren no_match_start in_class_def ident_start_def)

text \<open>
  Claim C6. Text that is not a match of the pattern appears unchanged in the output: a
  part \<open>w\<close> of the input that no occurrence of the pattern overlaps is copied as it is,
  between the outputs for the text before and the text behind it. A placeholder whose
  identifier starts with a digit, \<^verbatim>\<open>\(2x\)\<close>, and one with an empty identifier, \<^verbatim>\<open>\(\)\<close>, are
  copied wherever they stand; unbalanced escapes and backslash pairs that are not of
  the placeholder form are copied too.
\<close>

theorem non_matching_untouched:
  "((\<forall>(b, e) \<in> set (occurrences (pre @ w @ post)). e \<le> length pre \<or> length pre + length w \<le> b) \<longrightarrow>
      content1 (pre @ w @ post) = content1 pre @ w @ content1 post) \<and>
   content1 (pre @ BS # ''(2x'' @ BS # '')'' @ post) = content1 pre @ BS # ''(2x'' @ BS # '')'' @ content1 post \<and>
   content1 (pre @ BS # ''('' @ BS # '')'' @ post) = content1 pre @ BS # ''('' @ BS # '')'' @ content1 post \<and>
   content1 (BS # ''(name) and (x'' @ [BS, CHR '')'']) = BS # ''(name) and (x'' @ [BS, CHR '')''] \<and>
   content1 (''C:'' @ BS # BS # ''dir'' @ BS # ''n'' @ BS # BS # ''(x)'') = ''C:'' @ BS # BS # ''dir'' @ BS # ''n'' @ BS # BS # ''(x)''"
proof (intro conjI impI)
  assume "\<forall>(b, e) \<in> set (occurrences (pre @ w @ post)). e \<le> length pre \<or> length pre + length w \<le> b"
  then show "content1 (pre @ w @ post) = content1 pre @ w @ content1 post"
    by (rule region_untouched)
next
  show "content1 (pre @ BS # ''(2x'' @ BS # '')'' @ post) = content1 pre @ BS # ''(2x'' @ BS # '')'' @ content1 post"
    using content1_before_escape [of pre "''2x'' @ BS # '')'' @ post"] digit_start [of post] by simp
next
  show "content1 (pre @ BS # ''('' @ BS # '')'' @ post) = content1 pre @ BS # ''('' @ BS # '')'' @ content1 post"
    using content1_before_escape [of pre "BS # '')'' @ post"] empty_identifier [of post] by simp
next
  show "content1 (BS # ''(name) and (x'' @ [BS, CHR '')'']) = BS # ''(name) and (x'' @ [BS, CHR '')'']"
    by code_simp
next
  show "content1 (''C:'' @ BS # BS # ''dir'' @ BS # ''n'' @ BS # BS # ''(x)'') = ''C:'' @ BS # BS # ''dir'' @ BS # ''n'' @ BS # BS # ''(x)''"
    by code_simp
qed

theorem non_matching_untouched_witness:
  "list_all (\<lambda>(b, e). e \<le> length ''a = '' + 5 \<or> length ''a = '' + 5 + length (BS # ''(x + 1)'') \<le> b)
     (occurrences ((''a = '' @ escaped ''x'') @ (BS # ''(x + 1)'') @ (''; '' @ escaped ''y''))) \<and>
   content1 ((''a = '' @ escaped ''x'') @ (BS # ''(x + 1)'') @ (''; '' @ escaped ''y'')) =
     content1 (''a = '' @ escaped ''x'') @ (BS # ''(x + 1)'') @ content1 (''; '' @ escaped ''y'')"
proof -
  have h: "list_all (\<lambda>(b, e). e \<le> length ''a = '' + 5 \<or> length ''a = '' + 5 + length (BS # ''(x + 1)'') \<le> b)
     (occurrences ((''a = '' @ escaped ''x'') @ (BS # ''(x + 1)'') @ (''; '' @ escaped ''y'')))"
    by code_simp
  have l: "length (''a = '' @ escaped ''x'') = length ''a = '' + 5" by (simp add: escaped_def)
  from h have "\<forall>(b, e) \<in> set (occurrences ((''a = '' @ escaped ''x'') @ (BS # ''(x + 1)'') @ (''; '' @ escaped ''y''))).
      e \<le> length (''a = '' @ escaped ''x'') \<or> length (''a = '' @ escaped ''x'') + length (BS # ''(x + 1)'') \<le> b"
    unfolding l list_all_iff .
  with non_matching_untouched [of "''a = '' @ escaped ''x''" "BS # ''(x + 1)''" "''; '' @ escaped ''y''"] h
  show ?thesis by blast
qed

text \<open>
  Claim C7. For an input already in fixed form (no occurrence of the pattern), applying
  the substitution twice gives the same as applying it once, and the second application
  makes no replacement and returns its input.
\<close>

theorem fixed_form_idempotent:
  "occurrences s = [] \<Longrightarrow>
   content1 (content1 s) = content1 s \<and> re_subn pattern replacement (content1 s) = (content1 s, 0)"
  by (simp add: no_occurrence_copy no_occurrence_subn)

theorem fixed_form_idempotent_witness:
  "occurrences ''print((name), (count))'' = [] \<and>
   content1 (content1 ''print((name), (count))'') = content1 ''print((name), (count))'' \<and>
   re_subn pattern replacement (content1 ''print((name), (count))'') = (content1 ''print((name), (count))'', 0)"
proof -
  have h: "occurrences ''print((name), (count))'' = []" by code_simp
  from fixed_form_idempotent [OF h] h show ?thesis by blast
qed

subsection \<open>Counting the replacements\<close>

lemma subn_match:
  assumes "is_identifier i"
  shows "re_subn pattern replacement (escaped i @ rest) =
    (unescaped i @ fst (re_subn pattern replacement rest), Suc (snd (re_subn pattern replacement rest)))"
proof -
  define cs where "cs = CHR ''('' # i @ BS # CHR '')'' # rest"
  have e: "escaped i @ rest = BS # cs"
    by (simp add: escaped_def cs_def)
  have m: "rx_match pattern (BS # cs) 0 [0, 0] = Some (length i + 4, [2, length i + 2])"
    using match_complete [OF assms, of rest] by (simp only: e)
  have "re_subn pattern replacement (BS # cs) =
      (expand replacement (BS # cs) [2, length i + 2] @
         fst (re_subn pattern replacement (drop (length i + 4 - 1) cs)),
       Suc (snd (re_subn pattern replacement (drop (length i + 4 - 1) cs))))"
    by (simp add: m split: prod.split)
  also have "expand replacement (BS # cs) [2, length i + 2] = unescaped i"
    unfolding cs_def by (rule expand_replacement)
  also have "drop (length i + 4 - 1) cs = rest"
    unfolding cs_def by (rule drop_behind_match)
  finally show ?thesis by (simp only: e)
qed

lemma subn_copy:
  assumes "rx_match pattern (c # cs) 0 [0, 0] = None"
  shows "re_subn pattern replacement (c # cs) =
    (c # fst (re_subn pattern replacement cs), snd (re_subn pattern replacement cs))"
  using assms by (simp split: prod.split)

lemma length_subn:
  "length (fst (re_subn pattern replacement s)) + 2 * snd (re_subn pattern replacement s) = length s"
proof (induction s rule: length_induct)
  case (1 s)
  show ?case
  proof (cases "rx_match pattern s 0 [0, 0]")
    case None
    show ?thesis
    proof (cases s)
      case Nil
      then show ?thesis by simp
    next
      case (Cons c cs)
      with None have "re_subn pattern replacement s =
          (c # fst (re_subn pattern replacement cs), snd (re_subn pattern replacement cs))"
        by (simp only: subn_copy)
      moreover have "length (fst (re_subn pattern replacement cs)) +
          2 * snd (re_subn pattern replacement cs) = length cs"
        using 1 Cons by simp
      ultimately show ?thesis by (simp add: Cons)
    qed
  next
    case (Some r)
    then obtain i rest where i: "is_identifier i" and s: "s = escaped i @ rest"
      using match_Some by blast
    have "length rest < length s" by (simp add: s)
    with 1 have "length (fst (re_subn pattern replacement rest)) + 2 * snd (re_subn pattern replacement rest)
       = length rest" by simp
    then show ?thesis by (simp add: s subn_match [OF i])
  qed
qed

lemma distinct_occurrences: "distinct (occurrences s)"
proof -
  have "map fst (occurrences s) = filter (\<lambda>k. match_span s k \<noteq> None) [0..<length s]"
    unfolding occurrences_def map_filter_def map_map
    by (rule map_idI) (auto simp: match_span_def split: option.splits)
  then have "distinct (map fst (occurrences s))" by simp
  then show ?thesis by (simp add: distinct_map)
qed

lemma occurrences_copy:
  assumes "rx_match pattern (c # cs) 0 [0, 0] = None"
  shows "set (occurrences (c # cs)) = (\<lambda>(b, e). (Suc b, Suc e)) ` set (occurrences cs)"
proof (intro set_eqI iffI)
  fix x assume x: "x \<in> set (occurrences (c # cs))"
  obtain b e where be: "x = (b, e)" by (cases x)
  from x obtain pre i rest where i: "is_identifier i" and s: "c # cs = pre @ escaped i @ rest"
    and b: "b = length pre" and e: "e = length pre + length i + 4"
    unfolding be occurrences_iff by blast
  have "pre \<noteq> []"
  proof
    assume "pre = []"
    with s match_complete [OF i, of rest] assms show False by simp
  qed
  with s obtain pre' where p: "pre = c # pre'" and cs: "cs = pre' @ escaped i @ rest"
    by (cases pre) auto
  from i cs have "(length pre', length pre' + length i + 4) \<in> set (occurrences cs)"
    unfolding occurrences_iff by blast
  then show "x \<in> (\<lambda>(b, e). (Suc b, Suc e)) ` set (occurrences cs)"
    by (force simp: be b e p)
next
  fix x assume "x \<in> (\<lambda>(b, e). (Suc b, Suc e)) ` set (occurrences cs)"
  then obtain b e where "(b, e) \<in> set (occurrences cs)" "x = (Suc b, Suc e)" by auto
  with occurrence_shift [of b e cs "[c]"] show "x \<in> set (occurrences (c # cs))" by simp
qed

lemma occurrences_match:
  assumes i: "is_identifier i"
  shows "set (occurrences (escaped i @ rest)) =
    insert (0, length i + 4) ((\<lambda>(b, e). (length i + 4 + b, length i + 4 + e)) ` set (occurrences rest))"
proof (intro set_eqI iffI)
  fix x assume x: "x \<in> set (occurrences (escaped i @ rest))"
  obtain b e where be: "x = (b, e)" by (cases x)
  from x obtain pre j r where j: "is_identifier j" and s: "escaped i @ rest = pre @ escaped j @ r"
    and b: "b = length pre" and e: "e = length pre + length j + 4"
    unfolding be occurrences_iff by blast
  show "x \<in> insert (0, length i + 4) ((\<lambda>(b, e). (length i + 4 + b, length i + 4 + e)) ` set (occurrences rest))"
  proof (cases "pre = []")
    case True
    with s match_complete [OF i, of rest] match_complete [OF j, of r]
    have "length i = length j" by simp
    with True show ?thesis by (simp add: be b e)
  next
    case False
    from s have "escaped i @ rest = pre @ BS # CHR ''('' # (j @ BS # CHR '')'' # r)"
      by (simp add: escaped_def)
    from match_before_escape [OF i this False] obtain pre' where
      p: "pre = escaped i @ pre'" and r: "rest = pre' @ escaped j @ r"
      by (auto simp: escaped_def)
    from j r have "(length pre', length pre' + length j + 4) \<in> set (occurrences rest)"
      unfolding occurrences_iff by blast
    then show ?thesis by (force simp: be b e p)
  qed
next
  fix x
  assume "x \<in> insert (0, length i + 4) ((\<lambda>(b, e). (length i + 4 + b, length i + 4 + e)) ` set (occurrences rest))"
  then consider "x = (0, length i + 4)"
    | b e where "(b, e) \<in> set (occurrences rest)" "x = (length i + 4 + b, length i + 4 + e)"
    by auto
  then show "x \<in> set (occurrences (escaped i @ rest))"
  proof cases
    case 1
    with occurrence_head [OF match_complete [OF i, of rest]] show ?thesis by simp
  next
    case 2
    with occurrence_shift [of b e rest "escaped i"] show ?thesis by simp
  qed
qed

lemma count_occurrences: "snd (re_subn pattern replacement s) = length (occurrences s)"
proof (induction s rule: length_induct)
  case (1 s)
  have len: "length (occurrences t) = card (set (occurrences t))" for t
    by (simp add: distinct_card distinct_occurrences)
  show ?case
  proof (cases "rx_match pattern s 0 [0, 0]")
    case None
    show ?thesis
    proof (cases s)
      case Nil
      then show ?thesis by (simp add: occurrences_def map_filter_def)
    next
      case (Cons c cs)
      have "inj_on (\<lambda>(b :: nat, e :: nat). (Suc b, Suc e)) (set (occurrences cs))"
        by (auto simp: inj_on_def)
      then have "card ((\<lambda>(b, e). (Suc b, Suc e)) ` set (occurrences cs)) = card (set (occurrences cs))"
        by (rule card_image)
      moreover have "snd (re_subn pattern replacement cs) = length (occurrences cs)"
        using 1 Cons by simp
      moreover from None Cons have "re_subn pattern replacement s =
          (c # fst (re_subn pattern replacement cs), snd (re_subn pattern replacement cs))"
        by (simp only: subn_copy)
      ultimately show ?thesis
        using None Cons by (simp add: len occurrences_copy)
    qed
  next
    case (Some r)
    then obtain i rest where i: "is_identifier i" and s: "s = escaped i @ rest"
      using match_Some by blast
    let ?f = "\<lambda>(b :: nat, e :: nat). (length i + 4 + b, length i + 4 + e)"
    have "inj_on ?f (set (occurrences rest))" by (auto simp: inj_on_def)
    then have c: "card (?f ` set (occurrences rest)) = card (set (occurrences rest))"
      by (rule card_image)
    have n: "(0, length i + 4) \<notin> ?f ` set (occurrences rest)" by auto
    have "length rest < length s" by (simp add: s)
    with 1 have "snd (re_subn pattern replacement rest) = length (occurrences rest)" by simp
    then show ?thesis
      using c n by (simp add: s subn_match [OF i] len occurrences_match [OF i])
  qed
qed

text \<open>
  Claim C9. The output is shorter than the input by two characters for each replacement
  made: its length plus twice the number of replacements (the count \<^verbatim>\<open>re.subn\<close> returns,
  which is the number of occurrences of the pattern in the input) is the length of the
  input. Hence the output is never longer than the input.
\<close>

theorem output_length:
  "length (content1 s) + 2 * snd (re_subn pattern replacement s) = length s \<and>
   snd (re_subn pattern replacement s) = length (occurrences s) \<and>
   length (content1 s) \<le> length s"
  using length_subn [of s] count_occurrences [of s] by (simp add: content1_def re_sub_def)

theorem output_length_witness:
  "length (content1 (''f('' @ escaped ''a'' @ '', '' @ escaped ''b.c'' @ '')'')) + 2 * 2 = 17"
  using output_length [of "''f('' @ escaped ''a'' @ '', '' @ escaped ''b.c'' @ '')''"]
  by (simp add: escaped_def pattern_def replacement_def ident_start_def ident_char_def in_class_def group_def)

subsection \<open>One pass is enough\<close>

lemma content1_plain_prefix: "BS \<notin> set w \<Longrightarrow> content1 (w @ x) = w @ content1 x"
proof (induction w)
  case Nil
  show ?case by simp
next
  case (Cons c w)
  then have "c \<noteq> BS" by auto
  then have "rx_match pattern (c # w @ x) 0 [0, 0] = None" by (rule no_match_head)
  with Cons show ?case by (simp add: content1_copy)
qed

lemma output_head:
  assumes "content1 x = c # y" and "c \<noteq> CHR ''(''"
  shows "\<exists>x'. x = c # x' \<and> content1 x' = y"
proof (cases "rx_match pattern x 0 [0, 0]")
  case None
  with assms show ?thesis by (cases x) (auto simp: content1_copy)
next
  case (Some r)
  then obtain i rest where "is_identifier i" "x = escaped i @ rest"
    using match_Some by blast
  with assms show ?thesis by (simp add: content1_match unescaped_def)
qed

lemma output_run:
  "CHR ''('' \<notin> set a \<Longrightarrow> content1 x = a @ y \<Longrightarrow> \<exists>x'. x = a @ x' \<and> content1 x' = y"
proof (induction a arbitrary: x)
  case Nil
  then show ?case by simp
next
  case (Cons c a)
  from output_head [of x c "a @ y"] Cons.prems obtain x1 where "x = c # x1" "content1 x1 = a @ y"
    by auto
  with Cons.IH [of x1] Cons.prems show ?case by auto
qed

lemma output_paren:
  assumes "content1 x = CHR ''('' # y"
  shows "(\<exists>x'. x = CHR ''('' # x' \<and> content1 x' = y) \<or>
    (\<exists>j rest. is_identifier j \<and> x = escaped j @ rest \<and> y = j @ CHR '')'' # content1 rest)"
proof (cases "rx_match pattern x 0 [0, 0]")
  case None
  with assms show ?thesis by (cases x) (auto simp: content1_copy)
next
  case (Some r)
  then obtain i rest where "is_identifier i" "x = escaped i @ rest"
    using match_Some by blast
  with assms show ?thesis by (auto simp: content1_match unescaped_def)
qed

lemma mismatch:
  "c1 \<notin> set j \<Longrightarrow> c2 \<notin> set i \<Longrightarrow> c1 \<noteq> c2 \<Longrightarrow> i @ c1 # y \<noteq> j @ c2 # z"
proof (induction i arbitrary: j)
  case Nil
  then show ?case by (cases j) auto
next
  case (Cons c i)
  then show ?case by (cases j) auto
qed

lemma no_new_match:
  assumes "rx_match pattern (c # cs) 0 [0, 0] = None"
  shows "rx_match pattern (c # content1 cs) 0 [0, 0] = None"
proof (rule ccontr)
  assume "rx_match pattern (c # content1 cs) 0 [0, 0] \<noteq> None"
  then obtain i rest where i: "is_identifier i" and eq: "c # content1 cs = escaped i @ rest"
    using match_Some by fastforce
  then have c: "c = BS" and out: "content1 cs = CHR ''('' # i @ BS # CHR '')'' # rest"
    by (simp_all add: escaped_def)
  from i have plain: "BS \<notin> set i" "CHR ''('' \<notin> set i" "CHR '')'' \<notin> set i"
    by (simp_all add: identifier_plain)
  from output_paren [OF out] show False
  proof (elim disjE exE conjE)
    fix x' assume x': "cs = CHR ''('' # x'" "content1 x' = i @ BS # CHR '')'' # rest"
    from plain have "CHR ''('' \<notin> set (i @ [BS, CHR '')''])" by simp
    from output_run [OF this, of x' rest] x'(2) obtain x'' where "x' = i @ BS # CHR '')'' # x''"
      by auto
    with x'(1) c have "c # cs = escaped i @ x''" by (simp add: escaped_def)
    with match_complete [OF i, of x''] assms show False by simp
  next
    fix j r assume j: "is_identifier j" and "i @ BS # CHR '')'' # rest = j @ CHR '')'' # content1 r"
    moreover from j have "BS \<notin> set j" by (simp add: identifier_plain)
    ultimately show False using mismatch [of BS j "CHR '')''" i] plain by auto
  qed
qed

lemma content1_idempotent: "content1 (content1 s) = content1 s"
proof (induction s rule: length_induct)
  case (1 s)
  show ?case
  proof (cases "rx_match pattern s 0 [0, 0]")
    case None
    show ?thesis
    proof (cases s)
      case Nil
      then show ?thesis by simp
    next
      case (Cons c cs)
      with None have "rx_match pattern (c # content1 cs) 0 [0, 0] = None"
        by (simp add: no_new_match)
      moreover have "content1 (content1 cs) = content1 cs" using 1 Cons by simp
      ultimately show ?thesis using None Cons by (simp add: content1_copy)
    qed
  next
    case (Some r)
    then obtain i rest where i: "is_identifier i" and s: "s = escaped i @ rest"
      using match_Some by blast
    have "length rest < length s" by (simp add: s)
    with 1 have "content1 (content1 rest) = content1 rest" by simp
    moreover have "BS \<notin> set (unescaped i)"
      using identifier_plain [OF i] by (simp add: unescaped_def)
    ultimately show ?thesis
      by (simp add: s content1_match [OF i] content1_plain_prefix)
  qed
qed

lemma fixed_point_no_occurrence: "content1 t = t \<Longrightarrow> occurrences t = []"
  using length_subn [of t] count_occurrences [of t] by (simp add: content1_def re_sub_def)

text \<open>
  Claim C8. For every input, applying the substitution twice gives the same as applying
  it once: the output of one pass holds no occurrence of the pattern.
\<close>

theorem idempotent:
  "content1 (content1 s) = content1 s \<and> occurrences (content1 s) = []"
  using content1_idempotent [of s] fixed_point_no_occurrence [of "content1 s"] by simp

theorem idempotent_witness:
  "content1 (content1 (BS # BS # ''(x'' @ BS # '')'' @ [BS, CHR '')''])) =
     content1 (BS # BS # ''(x'' @ BS # '')'' @ [BS, CHR '')'']) \<and>
   occurrences (content1 (BS # BS # ''(x'' @ BS # '')'' @ [BS, CHR '')''])) = []"
  by (rule idempotent)

end
